theory Spec2Isabelle
  imports Complex_Main "HOL-Library.Log_Nat" "HOL-Library.Monad_Syntax"
begin

section \<open>Python values\<close>

subsection \<open>Floats\<close>

text \<open>
  A finite Python \<open>float\<close> (IEEE-754 binary64) is modelled by its exact value, a rational.
  \<open>fl\<close> rounds an exact rational to the nearest binary64 value, ties to even: it is what a
  float literal, a float addition or a float multiplication does to the exact result.
  Infinities and NaN are not values of the model; no computation of the proxy produces them.
  \<open>expo x\<close> is the binary exponent of a positive \<open>x\<close>, that is \<open>2 ^ e \<le> x < 2 ^ (e + 1)\<close>.
\<close>

type_synonym pyfloat = rat

definition expo :: "rat \<Rightarrow> int" where
  "expo x = (if 1 \<le> x then int (floorlog 2 (nat \<lfloor>x\<rfloor>)) - 1
             else - int (floorlog 2 (nat (\<lceil>1 / x\<rceil> - 1))))"

definition rhe :: "rat \<Rightarrow> int" where
  \<comment> \<open>round to the nearest integer, a tie to the even neighbour\<close>
  "rhe y = (let f = \<lfloor>y\<rfloor>; d = y - of_int f
            in if d < 1 / 2 then f else if 1 / 2 < d then f + 1
               else if even f then f else f + 1)"

definition fl :: "rat \<Rightarrow> pyfloat" where
  "fl x = (if x = 0 then 0
           else let u = 2 powi (max (expo \<bar>x\<bar>) (- 1022) - 52)
                in of_int (rhe (x / u)) * u)"

definition fadd :: "pyfloat \<Rightarrow> pyfloat \<Rightarrow> pyfloat" where
  "fadd a b = fl (a + b)"

definition fmul :: "pyfloat \<Rightarrow> pyfloat \<Rightarrow> pyfloat" where
  "fmul a b = fl (a * b)"

definition float_of_nat :: "nat \<Rightarrow> pyfloat" where
  \<comment> \<open>the conversion of an \<open>int\<close> operand in \<open>len(xs) * 0.2\<close>\<close>
  "float_of_nat n = fl (of_nat n)"

definition dec2 :: "rat \<Rightarrow> rat" where
  \<comment> \<open>the exact value rounded to two decimal places, a tie to the even digit\<close>
  "dec2 x = of_int (rhe (x * 100)) / 100"

definition round2 :: "pyfloat \<Rightarrow> pyfloat" where
  \<comment> \<open>\<open>round(x, 2)\<close>: the correctly rounded two-place decimal, read back as a float\<close>
  "round2 x = fl (dec2 x)"

subsection \<open>Strings\<close>

text \<open>
  A \<open>str\<close> is a \<open>string\<close>; its characters are the code points below 256. The em dash
  of the redaction markers (U+2014) lies outside that range and is written as the three
  bytes of its UTF-8 encoding; only the identity of the markers is used below.
\<close>

definition code :: "char \<Rightarrow> nat" where
  "code c = of_char c"

definition in_range :: "char \<Rightarrow> char \<Rightarrow> char \<Rightarrow> bool" where
  "in_range lo hi c = (code lo \<le> code c \<and> code c \<le> code hi)"

definition lower_char :: "char \<Rightarrow> char" where
  \<comment> \<open>\<open>str.lower\<close> on one character: A-Z and the capital letters of Latin-1\<close>
  "lower_char c =
     (if in_range CHR ''A'' CHR ''Z'' c \<or> (in_range (CHR 0xC0) (CHR 0xDE) c \<and> c \<noteq> CHR 0xD7)
      then char_of (code c + 32) else c)"

definition lower :: "string \<Rightarrow> string" where
  "lower s = map lower_char s"

fun is_substr :: "string \<Rightarrow> string \<Rightarrow> bool" where
  \<comment> \<open>\<open>needle in hay\<close>\<close>
  "is_substr needle [] = (needle = [])"
| "is_substr needle (c # cs) = (take (length needle) (c # cs) = needle \<or> is_substr needle cs)"

definition slice_to :: "int \<Rightarrow> string \<Rightarrow> string" where
  \<comment> \<open>\<open>s[:i]\<close>; a negative index counts from the end\<close>
  "slice_to i s = (if 0 \<le> i then take (nat i) s else take (nat (int (length s) + i)) s)"

definition slice_from :: "int \<Rightarrow> string \<Rightarrow> string" where
  \<comment> \<open>\<open>s[i:]\<close>\<close>
  "slice_from i s = (if 0 \<le> i then drop (nat i) s else drop (nat (int (length s) + i)) s)"

definition digit_char :: "nat \<Rightarrow> char" where
  "digit_char d = char_of (code CHR ''0'' + d)"

function str_of_nat :: "nat \<Rightarrow> string" where
  \<comment> \<open>\<open>str(n)\<close> for a non-negative \<open>int\<close>\<close>
  "str_of_nat n = (if n < 10 then [digit_char n]
                   else str_of_nat (n div 10) @ [digit_char (n mod 10)])"
  by pat_completeness auto
termination
  by (relation "measure (\<lambda>n. n)") auto

fun index_of :: "'a list \<Rightarrow> 'a \<Rightarrow> nat option" where
  \<comment> \<open>\<open>xs.index(x)\<close>; \<open>None\<close> is the \<open>ValueError\<close>\<close>
  "index_of [] x = None"
| "index_of (y # ys) x = (if y = x then Some 0 else map_option Suc (index_of ys x))"

section \<open>The regular expressions of the \<open>re\<close> module\<close>

text \<open>
  The patterns of the proxy use single characters and character classes, greedy repetition
  of a class, concatenation, alternation, the word boundary and the two anchors. A pattern
  is a value of \<open>rx\<close>; \<open>rx_ends r s i\<close> lists the positions at which a match of \<open>r\<close> that
  starts at position \<open>i\<close> of \<open>s\<close> can end, in the order in which the backtracking matcher
  tries them, so that the head of the list is the end of the match that \<open>re\<close> reports.
  A flag such as \<open>re.IGNORECASE\<close> is part of the classes of the pattern.
\<close>

datatype rx =
    Cls "char \<Rightarrow> bool"
  | Rep "char \<Rightarrow> bool" nat "nat option"
  | Cat rx rx
  | Alt rx rx
  | Eps
  | WordB
  | Bol
  | Eol

definition newline :: char where
  "newline = CHR 0x0A"

definition is_digit :: "char \<Rightarrow> bool" where
  \<comment> \<open>\<open>\d\<close>\<close>
  "is_digit c = in_range CHR ''0'' CHR ''9'' c"

definition is_space :: "char \<Rightarrow> bool" where
  \<comment> \<open>\<open>\s\<close>\<close>
  "is_space c = (in_range (CHR 0x09) (CHR 0x0D) c \<or> in_range (CHR 0x1C) (CHR 0x20) c
                 \<or> c = CHR 0x85 \<or> c = CHR 0xA0)"

definition is_alpha :: "char \<Rightarrow> bool" where
  \<comment> \<open>\<open>[A-Za-z]\<close>, also \<open>[A-Z]\<close> under \<open>re.IGNORECASE\<close>\<close>
  "is_alpha c = (in_range CHR ''A'' CHR ''Z'' c \<or> in_range CHR ''a'' CHR ''z'' c)"

definition is_word :: "char \<Rightarrow> bool" where
  \<comment> \<open>\<open>\w\<close>: the alphanumeric characters and the underscore\<close>
  "is_word c = (is_digit c \<or> is_alpha c \<or> c = CHR ''_'' \<or> c = CHR 0xAA
                \<or> in_range (CHR 0xB2) (CHR 0xB3) c \<or> c = CHR 0xB5
                \<or> in_range (CHR 0xB9) (CHR 0xBA) c \<or> in_range (CHR 0xBC) (CHR 0xBE) c
                \<or> in_range (CHR 0xC0) (CHR 0xD6) c \<or> in_range (CHR 0xD8) (CHR 0xF6) c
                \<or> in_range (CHR 0xF8) (CHR 0xFF) c)"

definition any_char :: "char \<Rightarrow> bool" where
  \<comment> \<open>\<open>.\<close> without \<open>re.DOTALL\<close>\<close>
  "any_char c = (c \<noteq> newline)"

definition is_boundary :: "string \<Rightarrow> nat \<Rightarrow> bool" where
  \<comment> \<open>\<open>\b\<close>: exactly one of the two neighbours is a word character\<close>
  "is_boundary s i =
     ((0 < i \<and> i \<le> length s \<and> is_word (s ! (i - 1))) \<noteq> (i < length s \<and> is_word (s ! i)))"

definition run_length :: "(char \<Rightarrow> bool) \<Rightarrow> string \<Rightarrow> nat \<Rightarrow> nat" where
  "run_length p s i = length (takeWhile p (drop i s))"

fun rx_ends :: "rx \<Rightarrow> string \<Rightarrow> nat \<Rightarrow> nat list" where
  "rx_ends (Cls p) s i = (if i < length s \<and> p (s ! i) then [Suc i] else [])"
| "rx_ends (Rep p lo hi) s i =
     (let k = (case hi of None \<Rightarrow> run_length p s i | Some h \<Rightarrow> min h (run_length p s i))
      in if k < lo then [] else rev [i + lo ..< Suc (i + k)])"
| "rx_ends (Cat a b) s i = concat (map (rx_ends b s) (rx_ends a s i))"
| "rx_ends (Alt a b) s i = rx_ends a s i @ rx_ends b s i"
| "rx_ends Eps s i = [i]"
| "rx_ends WordB s i = (if is_boundary s i then [i] else [])"
| "rx_ends Bol s i = (if i = 0 then [i] else [])"
| "rx_ends Eol s i =
     (if i = length s \<or> (Suc i = length s \<and> s ! i = newline) then [i] else [])"

definition rx_match :: "rx \<Rightarrow> string \<Rightarrow> bool" where
  \<comment> \<open>\<open>r.match(s)\<close> is not \<open>None\<close>\<close>
  "rx_match r s = (rx_ends r s 0 \<noteq> [])"

definition rx_search_from :: "rx \<Rightarrow> string \<Rightarrow> nat \<Rightarrow> (nat \<times> nat) option" where
  \<comment> \<open>the leftmost match at or after \<open>pos\<close>, as the span \<open>(start, end)\<close>\<close>
  "rx_search_from r s pos =
     (case List.find (\<lambda>i. rx_ends r s i \<noteq> []) [pos ..< Suc (length s)] of
        None \<Rightarrow> None
      | Some i \<Rightarrow> Some (i, hd (rx_ends r s i)))"

definition rx_search :: "rx \<Rightarrow> string \<Rightarrow> bool" where
  \<comment> \<open>\<open>r.search(s)\<close> is not \<open>None\<close>\<close>
  "rx_search r s = (rx_search_from r s 0 \<noteq> None)"

lemma find_in_set: "List.find P xs = Some x \<Longrightarrow> x \<in> set xs \<and> P x"
  by (induction xs) (auto split: if_splits)

lemma rx_search_from_bounds:
  "rx_search_from r s pos = Some (i, j) \<Longrightarrow> pos \<le> i \<and> i \<le> length s"
  by (auto simp add: rx_search_from_def split: option.splits dest!: find_in_set)

function finditer_from :: "rx \<Rightarrow> string \<Rightarrow> nat \<Rightarrow> (nat \<times> nat) list" where
  \<comment> \<open>the scan resumes at the end of a match, one character further after an empty one\<close>
  "finditer_from r s pos =
     (case rx_search_from r s pos of
        None \<Rightarrow> []
      | Some (i, j) \<Rightarrow> (i, j) # finditer_from r s (max j (Suc i)))"
  by pat_completeness auto
termination
proof (relation "measure (\<lambda>(r, s, pos). Suc (length s) - pos)")
  show "wf (measure (\<lambda>(r, s, pos). Suc (length s) - pos))"
    by simp
next
  fix r s pos x i j
  assume "rx_search_from r s pos = Some x" "(i, j) = x"
  then have "pos \<le> i \<and> i \<le> length s"
    using rx_search_from_bounds [of r s pos i j] by simp
  then show "((r, s, max j (Suc i)), (r, s, pos)) \<in> measure (\<lambda>(r, s, pos). Suc (length s) - pos)"
    by auto
qed

declare finditer_from.simps [simp del]

definition finditer :: "rx \<Rightarrow> string \<Rightarrow> (nat \<times> nat) list" where
  \<comment> \<open>the spans of \<open>r.finditer(s)\<close>\<close>
  "finditer r s = finditer_from r s 0"

definition substring :: "string \<Rightarrow> nat \<times> nat \<Rightarrow> string" where
  "substring s sp = take (snd sp - fst sp) (drop (fst sp) s)"

definition findall :: "rx \<Rightarrow> string \<Rightarrow> string list" where
  \<comment> \<open>\<open>re.findall\<close> for a pattern without groups\<close>
  "findall r s = map (substring s) (finditer r s)"

definition str_find :: "string \<Rightarrow> string \<Rightarrow> int" where
  \<comment> \<open>\<open>s.find(sub)\<close>: the first index of \<open>sub\<close> in \<open>s\<close>, or -1\<close>
  "str_find s sub =
     (case List.find (\<lambda>i. take (length sub) (drop i s) = sub) [0 ..< Suc (length s)] of
        None \<Rightarrow> - 1
      | Some i \<Rightarrow> int i)"

text \<open>The pattern syntax.\<close>

definition rx_chr :: "char \<Rightarrow> rx" where
  "rx_chr c = Cls (\<lambda>x. x = c)"

definition rx_chr_ci :: "char \<Rightarrow> rx" where
  \<comment> \<open>a literal character under \<open>re.IGNORECASE\<close>. Among the code points below 256 the flag
      identifies exactly the characters with the same \<open>lower\<close>; the further identifications
      that \<open>re\<close> makes (U+0131 and U+0130 with \<open>i\<close>, U+017F with \<open>s\<close>, U+212A with \<open>k\<close>) concern
      characters that a \<open>string\<close> does not hold\<close>
  "rx_chr_ci c = Cls (\<lambda>x. lower_char x = lower_char c)"

definition rx_seq :: "rx list \<Rightarrow> rx" where
  "rx_seq rs = foldr Cat rs Eps"

definition rx_lit :: "string \<Rightarrow> rx" where
  "rx_lit s = rx_seq (map rx_chr s)"

definition rx_lit_ci :: "string \<Rightarrow> rx" where
  "rx_lit_ci s = rx_seq (map rx_chr_ci s)"

definition rx_opt :: "(char \<Rightarrow> bool) \<Rightarrow> rx" where
  \<comment> \<open>\<open>c?\<close>\<close>
  "rx_opt p = Rep p 0 (Some 1)"

definition rx_star :: "(char \<Rightarrow> bool) \<Rightarrow> rx" where
  \<comment> \<open>\<open>c*\<close>\<close>
  "rx_star p = Rep p 0 None"

definition rx_plus :: "(char \<Rightarrow> bool) \<Rightarrow> rx" where
  \<comment> \<open>\<open>c+\<close>\<close>
  "rx_plus p = Rep p 1 None"

definition rx_times :: "nat \<Rightarrow> (char \<Rightarrow> bool) \<Rightarrow> rx" where
  \<comment> \<open>\<open>c{n}\<close>\<close>
  "rx_times n p = Rep p n (Some n)"

section \<open>Data model\<close>

text \<open>
  The dataclasses of \<open>dlp_engine.py\<close>, \<open>fingerprinter.py\<close>, \<open>policy_engine.py\<close> and
  \<open>redactor.py\<close>. The field names \<open>value\<close>, \<open>end\<close> and \<open>notes\<close> are keywords here
  and are written \<open>value_text\<close>, \<open>end_pos\<close> and \<open>note_list\<close>. Where two records share a
  field name, the record's name qualifies the field.
\<close>

record RequestContext =
  host :: string
  path :: string
  http_method :: string
  headers :: "(string \<times> string) list"
  body :: "string option"
  tls_ja3 :: "string option"
  sni :: "string option"

text \<open>
  A rule is the dictionary that \<open>_build_rules\<close> makes of a catalog entry. The field
  \<open>method\<close> of the request context is written \<open>http_method\<close>.
\<close>

record rule =
  service_name :: string
  domains :: "rx list"
  paths :: "rx list"
  headers :: "string list"
  model_type :: string
  api_version :: string
  risk_level :: string

record SensitiveSegment =
  label :: string
  value_text :: string
  start :: int
  end_pos :: int

record DLPResult =
  pii_score :: pyfloat
  secret_leakage_score :: pyfloat
  sensitive_segments :: "SensitiveSegment list"
  raw_prompt :: "string option"

record FingerprintResult =
  service_name :: string
  model_type :: string
  api_version :: string
  risk_level :: string
  confidence :: pyfloat
  matched_on :: "string list"

record PolicyDecision =
  action :: string
  reasons :: "string list"
  policy_matches :: "string list"
  parameters :: "string \<rightharpoonup> string"

record RedactionOutcome =
  action :: string
  redacted_text :: "string option"
  blocked :: bool
  note_list :: "string list"

section \<open>fingerprinter.py\<close>

definition wildcard_to_regex :: "string \<Rightarrow> rx" where
  \<comment> \<open>\<open>re.compile("^" + re.escape(pattern).replace("\\*", ".*") + "$", re.IGNORECASE)\<close>:
      every character but the star is a literal, the star is \<open>.*\<close>\<close>
  "wildcard_to_regex pattern =
     rx_seq ([Bol]
             @ map (\<lambda>c. if c = CHR ''*'' then rx_star any_char else rx_chr_ci c) pattern
             @ [Eol])"

definition catalog ::
  "(string \<times> string list \<times> rx list \<times> string list \<times> string \<times> string) list" where
  "catalog =
     [(''OpenAI'', [''api.openai.com''],
       [rx_lit ''/v1/chat/completions'', rx_lit ''/v1/completions'', rx_lit ''/v1/models''],
       [''OpenAI-Organization''], ''chat'', ''v1''),
      (''Anthropic'', [''api.anthropic.com'', ''claude.ai''],
       [rx_lit ''/v1/messages'', rx_lit ''/v1/complete''],
       [''Anthropic-Version''], ''chat'', ''v1''),
      (''Google Gemini'', [''generativelanguage.googleapis.com'', ''gemini.google.com''],
       [rx_lit ''/v1beta/models'', rx_lit ''/v1/models''],
       [''x-goog-api-client''], ''multimodal'', ''v1beta''),
      (''Azure OpenAI'', [''*.openai.azure.com''],
       [rx_seq [rx_lit ''/openai/deployments/'', rx_star any_char,
                rx_lit ''/chat/completions'']],
       [''api-key'', ''x-ms-client-request-id''], ''chat'', ''2023-12-01-preview''),
      (''HuggingFace'', [''api-inference.huggingface.co'', ''huggingface.co''],
       [rx_lit ''/models/'', rx_lit ''/pipeline/''],
       [''X-Requested-With''], ''inference'', ''v1''),
      (''Replicate'', [''api.replicate.com''],
       [rx_lit ''/v1/predictions''],
       [''Authorization''], ''inference'', ''v1''),
      (''Cohere'', [''api.cohere.ai''],
       [rx_lit ''/v1/generate'', rx_lit ''/v1/chat''],
       [''Cohere-Version''], ''chat'', ''v1''),
      (''Mistral'', [''api.mistral.ai''],
       [rx_lit ''/v1/chat/completions'', rx_lit ''/v1/models''],
       [''Mistral-Version''], ''chat'', ''v1''),
      (''Perplexity'', [''api.perplexity.ai''],
       [rx_lit ''/chat/completions''],
       [''User-Agent''], ''chat'', ''v1''),
      (''AWS Bedrock'', [''bedrock-runtime.*.amazonaws.com''],
       [rx_seq [rx_lit ''/model/'', rx_star any_char, rx_lit ''invoke'']],
       [''X-Amz-Target''], ''multimodal'', ''2023-06-01''),
      (''IBM watsonx'', [''us-south.ml.cloud.ibm.com''],
       [rx_lit ''/ml/v1/generation''],
       [''Authorization''], ''chat'', ''v1'')]"

definition build_rules :: "rule list" where
  "build_rules =
     map (\<lambda>(name, doms, pths, hdrs, mtype, version).
            \<lparr>rule.service_name = name,
             domains = map wildcard_to_regex doms,
             paths = pths,
             rule.headers = map lower hdrs,
             rule.model_type = mtype,
             rule.api_version = version,
             rule.risk_level =
               (if name \<notin> {''AWS Bedrock'', ''IBM watsonx''} then ''medium'' else ''low'')\<rparr>)
         catalog"

definition score_rule :: "RequestContext \<Rightarrow> string \<Rightarrow> rule \<Rightarrow> pyfloat \<times> string list" where
  \<comment> \<open>the body of the loop over the rules, up to the threshold test\<close>
  "score_rule ctx host_lc r =
     (let signals = []; score = 0;
          (score, signals) =
            (if list_ex (\<lambda>d. rx_match d host_lc) (domains r)
             then (fadd score (fl (5 / 10)), signals @ [''domain'']) else (score, signals));
          (score, signals) =
            (if list_ex (\<lambda>p. rx_search p (path ctx)) (paths r)
             then (fadd score (fl (3 / 10)), signals @ [''path'']) else (score, signals));
          header_keys = map (\<lambda>kv. lower (fst kv)) (RequestContext.headers ctx);
          (score, signals) =
            (if list_ex (\<lambda>h. h \<in> set header_keys) (rule.headers r)
             then (fadd score (fl (15 / 100)), signals @ [''header'']) else (score, signals));
          (score, signals) =
            (if tls_ja3 ctx \<noteq> None \<and> tls_ja3 ctx \<noteq> Some []
                \<and> rule.service_name r \<in> {''OpenAI'', ''Anthropic''}
             then (fadd score (fl (5 / 100)), signals @ [''tls-ja3'']) else (score, signals))
      in (score, signals))"

definition matched_rules ::
  "rule list \<Rightarrow> RequestContext \<Rightarrow> (rule \<times> pyfloat \<times> string list) list" where
  "matched_rules rules ctx =
     concat (map (\<lambda>r. let (score, signals) = score_rule ctx (lower (host ctx)) r
                        in if fl (45 / 100) \<le> score then [(r, score, signals)] else [])
                 rules)"

definition fingerprint :: "rule list \<Rightarrow> RequestContext \<Rightarrow> FingerprintResult option" where
  \<comment> \<open>\<open>sorted(matched, key=lambda x: x[1], reverse=True)[0]\<close>; the sort is stable\<close>
  "fingerprint rules ctx =
     (let matched = matched_rules rules ctx
      in if matched = [] then None
         else let (r, score, signals) = hd (sort_key (\<lambda>x. - fst (snd x)) matched)
              in Some \<lparr>FingerprintResult.service_name = rule.service_name r,
                       model_type = rule.model_type r,
                       api_version = rule.api_version r,
                       risk_level = rule.risk_level r,
                       confidence = round2 score,
                       matched_on = signals\<rparr>)"

section \<open>dlp_engine.py\<close>

definition email_local :: "char \<Rightarrow> bool" where
  \<comment> \<open>\<open>[A-Z0-9._%+-]\<close> under \<open>re.IGNORECASE\<close>\<close>
  "email_local c = (is_alpha c \<or> is_digit c \<or> c \<in> set ''._%+-'')"

definition email_domain :: "char \<Rightarrow> bool" where
  \<comment> \<open>\<open>[A-Z0-9.-]\<close> under \<open>re.IGNORECASE\<close>\<close>
  "email_domain c = (is_alpha c \<or> is_digit c \<or> c \<in> set ''.-'')"

definition space_or_dash :: "char \<Rightarrow> bool" where
  \<comment> \<open>\<open>[\s-]\<close>\<close>
  "space_or_dash c = (is_space c \<or> c = CHR ''-'')"

definition key_char :: "char \<Rightarrow> bool" where
  \<comment> \<open>\<open>[A-Za-z0-9-_]\<close>\<close>
  "key_char c = (is_alpha c \<or> is_digit c \<or> c = CHR ''-'' \<or> c = CHR ''_'')"

definition PII_REGEXES :: "(string \<times> rx) list" where
  "PII_REGEXES =
     [(''email'',
       rx_seq [rx_plus email_local, rx_chr CHR ''@'', rx_plus email_domain, rx_chr CHR ''.'',
               Rep is_alpha 2 None]),
      (''phone'',
       rx_seq [WordB, rx_opt (\<lambda>c. c = CHR ''+''), Rep is_digit 1 (Some 2),
               rx_opt space_or_dash, rx_opt (\<lambda>c. c = CHR ''(''), rx_times 3 is_digit,
               rx_opt (\<lambda>c. c = CHR '')''), rx_opt space_or_dash, rx_times 3 is_digit,
               rx_opt space_or_dash, rx_times 4 is_digit, WordB]),
      (''medicare'',
       rx_seq [WordB, rx_times 4 is_digit, rx_opt is_space, rx_times 4 is_digit,
               rx_opt is_space, rx_times 4 is_digit, WordB]),
      (''tfn'',
       rx_seq [WordB, rx_times 3 is_digit, rx_opt is_space, rx_times 3 is_digit,
               rx_opt is_space, rx_times 3 is_digit, WordB])]"

definition SECRET_REGEXES :: "(string \<times> rx) list" where
  "SECRET_REGEXES =
     [(''api_key'',
       rx_seq [Alt (rx_lit_ci ''api'')
                 (Alt (rx_lit_ci ''token'') (Alt (rx_lit_ci ''secret'') (rx_lit_ci ''key''))),
               Cls (\<lambda>c. c = CHR ''='' \<or> c = CHR '':''), rx_star is_space,
               rx_opt (\<lambda>c. c = CHR 0x27 \<or> c = CHR 0x22), Rep key_char 12 None]),
      (''jwt'',
       rx_seq [rx_lit ''eyJ'', rx_plus key_char, rx_chr CHR ''.'', rx_plus key_char,
               rx_chr CHR ''.'', rx_plus key_char])]"

definition ENTITY_LABELS :: "string set" where
  "ENTITY_LABELS = {''PERSON'', ''GPE'', ''ORG'', ''NORP'', ''LOC''}"

text \<open>
  The engine: the spaCy pipeline is an external collaborator, a function from the text to
  the entities \<open>(label, text, start_char, end_char)\<close> it recognises; \<open>None\<close> when no model
  is loaded.
\<close>

record DLPEngine =
  enable_spacy :: bool
  nlp :: "(string \<Rightarrow> (string \<times> string \<times> int \<times> int) list) option"

text \<open>
  The Shannon entropy is computed in floats. Three things it uses lie outside the program:
  \<open>math.log2\<close>, a function of the C library on floats; the order in which a \<open>set\<close> of
  characters is iterated, which fixes the order of the terms; and the builtin \<open>sum\<close> on
  floats, whose rounding depends on the interpreter (plain left-to-right addition, or
  compensated summation). All three are parameters: whatever holds for every \<open>runtime\<close>
  holds for the real one.
\<close>

record runtime =
  math_log2 :: "pyfloat \<Rightarrow> pyfloat"
  set_order :: "string \<Rightarrow> char list"
  sum_floats :: "pyfloat list \<Rightarrow> pyfloat"

definition int_truediv :: "nat \<Rightarrow> nat \<Rightarrow> pyfloat" where
  \<comment> \<open>\<open>a / b\<close> on two counts, \<open>b\<close> not zero: the correctly rounded quotient\<close>
  "int_truediv a b = fl (of_nat a / of_nat b)"

definition entropy :: "runtime \<Rightarrow> string \<Rightarrow> pyfloat" where
  "entropy rt text =
     (if text = [] then 0
      else let probs = map (\<lambda>c. int_truediv (count_list text c) (length text))
                         (set_order rt text)
           in - sum_floats rt (map (\<lambda>p. fmul p (math_log2 rt p)) probs))"

definition segment_of :: "string \<Rightarrow> string \<Rightarrow> nat \<times> nat \<Rightarrow> SensitiveSegment" where
  \<comment> \<open>the segment of a match object: \<open>m.group()\<close>, \<open>m.start()\<close>, \<open>m.end()\<close>\<close>
  "segment_of lbl text m =
     \<lparr>label = lbl, value_text = substring text m, start = int (fst m), end_pos = int (snd m)\<rparr>"

definition scan_regexes :: "string \<Rightarrow> SensitiveSegment list" where
  "scan_regexes text =
     concat (map (\<lambda>(lbl, regex). map (segment_of lbl text) (finditer regex text)) PII_REGEXES)
     @ concat (map (\<lambda>(lbl, regex). map (segment_of lbl text) (finditer regex text))
                 SECRET_REGEXES)"

definition scan_entropy :: "runtime \<Rightarrow> string \<Rightarrow> pyfloat \<Rightarrow> SensitiveSegment list" where
  "scan_entropy rt text threshold =
     (let tokens = findall (Rep key_char 8 None) text
      in concat (map (\<lambda>token.
                        if threshold \<le> entropy rt token \<and> 16 \<le> length token
                        then [\<lparr>label = ''high_entropy'', value_text = token,
                               start = str_find text token,
                               end_pos = str_find text token + int (length token)\<rparr>]
                        else [])
                     tokens))"

definition scan_spacy :: "DLPEngine \<Rightarrow> string \<Rightarrow> SensitiveSegment list" where
  "scan_spacy self text =
     (case nlp self of
        None \<Rightarrow> []
      | Some run \<Rightarrow>
          if \<not> enable_spacy self then []
          else map (\<lambda>(lbl, txt, s, e).
                      \<lparr>label = lbl, value_text = txt, start = s, end_pos = e\<rparr>)
                 (filter (\<lambda>(lbl, txt, s, e). lbl \<in> ENTITY_LABELS) (run text)))"

definition analyze :: "runtime \<Rightarrow> DLPEngine \<Rightarrow> string \<Rightarrow> DLPResult" where
  "analyze rt self prompt =
     (let regex_hits = scan_regexes prompt;
          entropy_hits = scan_entropy rt prompt (fl (35 / 10));
          spacy_hits = scan_spacy self prompt;
          all_hits = regex_hits @ entropy_hits @ spacy_hits;
          pii_hits = filter (\<lambda>h. label h \<in> set (map fst PII_REGEXES) \<or> label h \<in> ENTITY_LABELS)
                       all_hits;
          secret_hits = filter (\<lambda>h. label h \<in> set (map fst SECRET_REGEXES)
                                      \<or> label h = ''high_entropy'') all_hits;
          pii_score = min 1 (fmul (float_of_nat (length pii_hits)) (fl (2 / 10)));
          secret_score =
            min 1 (fadd (fmul (float_of_nat (length secret_hits)) (fl (25 / 100)))
                     (if list_ex (\<lambda>h. label h = ''high_entropy'') secret_hits
                      then fl (3 / 10) else 0))
      in \<lparr>pii_score = round2 pii_score, secret_leakage_score = round2 secret_score,
          sensitive_segments = all_hits, raw_prompt = Some prompt\<rparr>)"

section \<open>policy_engine.py\<close>

record PolicyEngine =
  whitelist :: "string set"
  enforce_external_block :: bool

definition severity :: "string list" where
  "severity = [''allow'', ''redact'', ''mask'', ''rewrite'', ''block'']"

definition bump_action :: "string \<Rightarrow> string \<Rightarrow> string option" where
  \<comment> \<open>\<open>None\<close> is the \<open>ValueError\<close> of \<open>list.index\<close> on an unknown action\<close>
  "bump_action current candidate =
     do { c \<leftarrow> index_of severity candidate;
          k \<leftarrow> index_of severity current;
          Some (if k < c then candidate else current) }"

definition evaluate ::
  "PolicyEngine \<Rightarrow> FingerprintResult option \<Rightarrow> DLPResult \<Rightarrow> PolicyDecision option" where
  "evaluate self fp dlp =
     do { let matches = []; let reasons = []; let action = ''allow''; let params = Map.empty;
          (matches, reasons, action) \<leftarrow>
            (if fl (2 / 10) \<le> pii_score dlp
             then do { a \<leftarrow> bump_action action ''redact'';
                       Some (matches @ [''RULE_NO_PII''], reasons @ [''PII detected''], a) }
             else Some (matches, reasons, action));
          (matches, reasons, action) \<leftarrow>
            (if fl (2 / 10) \<le> secret_leakage_score dlp
             then do { a \<leftarrow> bump_action action ''redact'';
                       Some (matches @ [''RULE_REDACT_SECRETS''],
                             reasons @ [''Secrets detected''], a) }
             else Some (matches, reasons, action));
          (matches, reasons, action) \<leftarrow>
            (if fl (4 / 10) \<le> secret_leakage_score dlp
             then do { a \<leftarrow> bump_action action ''block'';
                       Some (matches @ [''RULE_BLOCK_SECRETS''],
                             reasons @ [''High secret risk''], a) }
             else Some (matches, reasons, action));
          (matches, reasons, action) \<leftarrow>
            (case fp of
               Some f \<Rightarrow>
                 if enforce_external_block self \<and> service_name f \<notin> whitelist self
                 then do { a \<leftarrow> bump_action action ''block'';
                           Some (matches @ [''RULE_BLOCK_EXTERNAL''],
                                 reasons @ [''External LLM '' @ service_name f
                                            @ '' not whitelisted''], a) }
                 else Some (matches, reasons, action)
             | None \<Rightarrow> Some (matches, reasons, action));
          (matches, reasons, action, params) \<leftarrow>
            (case raw_prompt dlp of
               Some p \<Rightarrow>
                 if p \<noteq> [] \<and> is_substr ''ignore previous'' (lower p)
                 then do { a \<leftarrow> bump_action action ''rewrite'';
                           Some (matches @ [''RULE_SAFE_MODE_REWRITE''],
                                 reasons @ [''Jailbreak-like content''], a,
                                 params(''rewrite'' \<mapsto> ''safe-mode'')) }
                 else Some (matches, reasons, action, params)
             | None \<Rightarrow> Some (matches, reasons, action, params));
          let reasons = (if matches = [] then reasons @ [''No policies triggered''] else reasons);
          Some \<lparr>PolicyDecision.action = action, reasons = reasons,
                policy_matches = matches, parameters = params\<rparr> }"

section \<open>redactor.py\<close>

definition emdash :: string where
  "emdash = [CHR 0xE2, CHR 0x80, CHR 0x94]"

definition REDACTION_TOKENS :: "string \<rightharpoonup> string" where
  "REDACTION_TOKENS =
     [''pii'' \<mapsto> ''[REDACTED'' @ emdash @ ''PII]'',
      ''secret'' \<mapsto> ''[REDACTED'' @ emdash @ ''SECRET]'',
      ''high_entropy'' \<mapsto> ''[REDACTED'' @ emdash @ ''SECRET]'']"

definition dict_get :: "('k \<rightharpoonup> 'v) \<Rightarrow> 'k \<Rightarrow> 'v \<Rightarrow> 'v" where
  \<comment> \<open>\<open>d.get(k, default)\<close>\<close>
  "dict_get d k dflt = (case d k of None \<Rightarrow> dflt | Some v \<Rightarrow> v)"

definition sorted_by_start_desc :: "SensitiveSegment list \<Rightarrow> SensitiveSegment list" where
  \<comment> \<open>\<open>sorted(segments, key=lambda s: s.start, reverse=True)\<close>; the sort is stable\<close>
  "sorted_by_start_desc segs = sort_key (\<lambda>s. - start s) segs"

definition splice :: "SensitiveSegment \<Rightarrow> string \<Rightarrow> string \<Rightarrow> string" where
  \<comment> \<open>\<open>text[: segment.start] + token + text[segment.end :]\<close>\<close>
  "splice segment token text =
     slice_to (start segment) text @ token @ slice_from (end_pos segment) text"

definition basic_redact :: "string \<Rightarrow> DLPResult \<Rightarrow> RedactionOutcome" where
  "basic_redact prompt dlp =
     (let redacted =
            fold (\<lambda>segment redacted.
                    splice segment (dict_get REDACTION_TOKENS (label segment) ''[REDACTED]'')
                      redacted)
              (sorted_by_start_desc (sensitive_segments dlp)) prompt;
          blocked = (fl (8 / 10) \<le> pii_score dlp \<or> fl (8 / 10) \<le> secret_leakage_score dlp);
          note_list = (if blocked then [''blocked due to high risk'']
                   else if redacted \<noteq> prompt then [''redaction applied'']
                   else [''no redaction needed''])
      in \<lparr>RedactionOutcome.action = ''redact'', redacted_text = Some redacted,
          blocked = blocked, note_list = note_list\<rparr>)"

definition hash_like :: "(string \<Rightarrow> int) \<Rightarrow> string \<Rightarrow> string" where
  \<comment> \<open>the builtin \<open>hash\<close> is seeded per process: it is the parameter \<open>py_hash\<close>\<close>
  "hash_like py_hash v = ''[MASK:'' @ str_of_nat (nat (\<bar>py_hash v\<bar> mod 10000000)) @ '']''"

definition mask :: "(string \<Rightarrow> int) \<Rightarrow> string \<Rightarrow> DLPResult \<Rightarrow> RedactionOutcome" where
  "mask py_hash prompt dlp =
     (let masked =
            fold (\<lambda>segment masked. splice segment (hash_like py_hash (value_text segment)) masked)
              (sorted_by_start_desc (sensitive_segments dlp)) prompt
      in \<lparr>RedactionOutcome.action = ''mask'', redacted_text = Some masked,
          blocked = False, note_list = [''masking applied'']\<rparr>)"

definition redact :: "(string \<Rightarrow> int) \<Rightarrow> string \<Rightarrow> DLPResult \<Rightarrow> string \<Rightarrow> RedactionOutcome" where
  "redact py_hash prompt dlp mode =
     (if mode = ''block''
      then \<lparr>RedactionOutcome.action = ''block'', redacted_text = None,
            blocked = True, note_list = [''blocked by policy'']\<rparr>
      else if mode = ''mask'' then mask py_hash prompt dlp
      else if mode = ''rewrite''
      then \<lparr>RedactionOutcome.action = ''rewrite'',
            redacted_text =
              Some ''This prompt was rewritten to safe mode. Original content withheld.'',
            blocked = False, note_list = [''safe-mode rewrite'']\<rparr>
      else basic_redact prompt dlp)"

section \<open>The specification's rule table and severity order\<close>

text \<open>
  The two definitions below follow the words of the specification, not the code: the
  total order \<open>allow < redact < mask < rewrite < block\<close> as a rank, and the table of
  policy rules as the list of the rules that trigger, each with its action floor.
\<close>

definition rank :: "string \<Rightarrow> nat" where
  "rank a = (if a = ''allow'' then 0 else if a = ''redact'' then 1 else if a = ''mask'' then 2
             else if a = ''rewrite'' then 3 else if a = ''block'' then 4 else 5)"

definition triggered_rules ::
  "PolicyEngine \<Rightarrow> FingerprintResult option \<Rightarrow> DLPResult \<Rightarrow> (string \<times> string) list" where
  "triggered_rules self fp dlp =
     (if fl (2 / 10) \<le> pii_score dlp then [(''RULE_NO_PII'', ''redact'')] else [])
     @ (if fl (2 / 10) \<le> secret_leakage_score dlp
        then [(''RULE_REDACT_SECRETS'', ''redact'')] else [])
     @ (if fl (4 / 10) \<le> secret_leakage_score dlp
        then [(''RULE_BLOCK_SECRETS'', ''block'')] else [])
     @ (case fp of
          Some f \<Rightarrow> if enforce_external_block self \<and> service_name f \<notin> whitelist self
                    then [(''RULE_BLOCK_EXTERNAL'', ''block'')] else []
        | None \<Rightarrow> [])
     @ (case raw_prompt dlp of
          Some p \<Rightarrow> if is_substr ''ignore previous'' (lower p)
                    then [(''RULE_SAFE_MODE_REWRITE'', ''rewrite'')] else []
        | None \<Rightarrow> [])"

definition most_severe :: "string list \<Rightarrow> string" where
  "most_severe floors =
     (if ''block'' \<in> set floors then ''block'' else if ''rewrite'' \<in> set floors then ''rewrite''
      else if ''redact'' \<in> set floors then ''redact'' else ''allow'')"

text \<open>
  Two predicates for the host patterns: the text at position \<open>i\<close> of \<open>s\<close> equals \<open>base\<close>
  up to case, and position \<open>i\<close> is where \<open>$\<close> matches.
\<close>

definition ci_at :: "string \<Rightarrow> string \<Rightarrow> nat \<Rightarrow> bool" where
  "ci_at base s i = (i + length base \<le> length s \<and> lower (take (length base) (drop i s)) = lower base)"

definition at_eol :: "string \<Rightarrow> nat \<Rightarrow> bool" where
  "at_eol s i = (i = length s \<or> (Suc i = length s \<and> s ! i = newline))"

text \<open>
  Two segments do not overlap when one ends at or before the start of the other; a list of
  segments has no overlap when this holds of every two of its entries.
\<close>

definition spans_disjoint :: "SensitiveSegment \<Rightarrow> SensitiveSegment \<Rightarrow> bool" where
  "spans_disjoint a b = (end_pos a \<le> start b \<or> end_pos b \<le> start a)"

definition no_overlap :: "SensitiveSegment list \<Rightarrow> bool" where
  "no_overlap segs = sorted_wrt spans_disjoint segs"

text \<open>The exponent of the unit in the last place of the float nearest to \<open>x\<close>.\<close>

definition ulp_exp :: "rat \<Rightarrow> int" where
  "ulp_exp x = max (expo \<bar>x\<bar>) (- 1022) - 52"

section \<open>Concrete inputs\<close>

definition engine0 :: PolicyEngine where
  \<comment> \<open>the engine that \<open>ProxyOrchestrator.__init__\<close> builds\<close>
  "engine0 = \<lparr>whitelist = {''OpenAI'', ''Azure OpenAI'', ''Google Gemini''},
              enforce_external_block = True\<rparr>"

definition dlp_high_pii :: DLPResult where
  "dlp_high_pii = \<lparr>pii_score = 1, secret_leakage_score = 0, sensitive_segments = [],
                    raw_prompt = None\<rparr>"

definition dlp_jailbreak :: DLPResult where
  "dlp_jailbreak = \<lparr>pii_score = 0, secret_leakage_score = 1 / 2, sensitive_segments = [],
                     raw_prompt = Some ''Ignore previous rules''\<rparr>"

definition dlp_benign :: DLPResult where
  "dlp_benign = \<lparr>pii_score = 0, secret_leakage_score = 0, sensitive_segments = [],
                  raw_prompt = Some ''hello''\<rparr>"

definition seg_email :: SensitiveSegment where
  "seg_email = \<lparr>label = ''email'', value_text = ''bob@example.com'', start = 0, end_pos = 15\<rparr>"

definition seg_key :: SensitiveSegment where
  "seg_key = \<lparr>label = ''api_key'', value_text = ''token=abcdefghijkl'',
              start = 16, end_pos = 34\<rparr>"

definition dlp_two :: DLPResult where
  "dlp_two = \<lparr>pii_score = fl (2 / 10), secret_leakage_score = fl (25 / 100),
              sensitive_segments = [seg_email, seg_key],
              raw_prompt = Some ''bob@example.com token=abcdefghijkl''\<rparr>"

definition ctx_path_header :: RequestContext where
  \<comment> \<open>a request whose path and header are those of Replicate, on an unlisted host\<close>
  "ctx_path_header =
     \<lparr>host = ''llm.internal.example'', path = ''/v1/predictions'', http_method = ''POST'',
      RequestContext.headers = [(''Authorization'', ''Bearer t'')], body = None,
      tls_ja3 = None, sni = None\<rparr>"

definition dlp_engine0 :: DLPEngine where
  \<comment> \<open>the engine that \<open>ProxyOrchestrator.__init__\<close> builds: spaCy disabled\<close>
  "dlp_engine0 = \<lparr>enable_spacy = False, nlp = None\<rparr>"

definition digits12 :: string where
  "digits12 = ''123456789012''"

definition digits_twice :: string where
  "digits_twice = ''123456789012 123456789012''"

definition runtime0 :: runtime where
  \<comment> \<open>one runtime; no theorem below depends on which\<close>
  "runtime0 = \<lparr>math_log2 = (\<lambda>p. 0), set_order = remdups,
               sum_floats = (\<lambda>xs. fold (\<lambda>x acc. fadd acc x) xs 0)\<rparr>"

section \<open>Float rounding\<close>

text \<open>
  The binary exponent brackets its argument, rounding to the nearest integer and rounding to
  the nearest float are monotone; then the values of the float literals of the proxy.
\<close>

lemma expo_bounds:
  assumes "0 < x"
  shows "2 powi expo x \<le> x" and "x < 2 powi (expo x + 1)"
proof -
  have "2 powi expo x \<le> x \<and> x < 2 powi (expo x + 1)"
  proof (cases "1 \<le> x")
    case True
    define n where "n = nat \<lfloor>x\<rfloor>"
    have n1: "1 \<le> n" using True by (simp add: n_def le_nat_iff)
    have fl0: "0 \<le> \<lfloor>x\<rfloor>" using True by simp
    have "(of_nat n :: rat) = of_int \<lfloor>x\<rfloor>"
      using fl0 by (simp add: n_def)
    then have nx: "of_nat n \<le> x" "x < of_nat n + 1"
      by (simp_all, linarith)
    define f where "f = floorlog 2 n"
    have fb: "2 ^ (f - 1) \<le> n" "n < 2 ^ f"
      using floorlog_bounds [of n 2] n1 by (simp_all add: f_def)
    have f1: "1 \<le> f" using fb(2) n1 by (cases f) simp_all
    have e: "expo x = int (f - 1)"
      using True f1 by (simp add: expo_def f_def n_def)
    have "(2::rat) ^ (f - 1) \<le> of_nat n"
      using fb(1) by (metis of_nat_le_iff of_nat_numeral of_nat_power)
    then have lo: "(2::rat) ^ (f - 1) \<le> x" using nx(1) by (rule order_trans)
    have "n + 1 \<le> 2 ^ f" using fb(2) by simp
    then have "(of_nat (n + 1) :: rat) \<le> 2 ^ f"
      by (metis of_nat_le_iff of_nat_numeral of_nat_power)
    moreover have "x < of_nat (n + 1)" using nx(2) by simp
    ultimately have hi: "x < (2::rat) ^ f" by (rule less_le_trans [rotated])
    have e1: "expo x + 1 = int f" using f1 e by simp
    have "2 powi expo x = (2::rat) ^ (f - 1)"
      unfolding e by (rule power_int_of_nat)
    moreover have "2 powi (expo x + 1) = (2::rat) ^ f"
      unfolding e1 by (rule power_int_of_nat)
    ultimately show ?thesis using lo hi by (simp only:)
  next
    case False
    define y where "y = 1 / x"
    have y1: "1 < y" using False assms by (simp add: y_def)
    define m where "m = nat (\<lceil>y\<rceil> - 1)"
    have c2: "2 \<le> \<lceil>y\<rceil>" using y1 by (simp add: le_ceiling_iff)
    have m1: "1 \<le> m" unfolding m_def using c2 by arith
    have my: "of_nat m < y" "y \<le> of_nat m + 1"
    proof -
      have "of_int (\<lceil>y\<rceil> - 1) < y" by linarith
      moreover have mi: "(of_nat m :: rat) = of_int (\<lceil>y\<rceil> - 1)"
        unfolding m_def using c2 by (subst of_nat_nat) simp_all
      ultimately show "of_nat m < y" by simp
      have "y \<le> of_int \<lceil>y\<rceil>" by simp
      moreover have "(of_nat m :: rat) + 1 = of_int \<lceil>y\<rceil>"
        unfolding mi by simp
      ultimately show "y \<le> of_nat m + 1" by simp
    qed
    define f where "f = floorlog 2 m"
    have fb: "2 ^ (f - 1) \<le> m" "m < 2 ^ f"
      using floorlog_bounds [of m 2] m1 by (simp_all add: f_def)
    have f1: "1 \<le> f" using fb(2) m1 by (cases f) simp_all
    have e: "expo x = - int f"
      using False by (simp add: expo_def f_def m_def y_def)
    have "(2::rat) ^ (f - 1) \<le> of_nat m"
      using fb(1) by (metis of_nat_le_iff of_nat_numeral of_nat_power)
    then have lo: "(2::rat) ^ (f - 1) < y" using my(1) by (rule le_less_trans)
    have "m + 1 \<le> 2 ^ f" using fb(2) by simp
    then have "(of_nat (m + 1) :: rat) \<le> 2 ^ f"
      by (metis of_nat_le_iff of_nat_numeral of_nat_power)
    moreover have "y \<le> of_nat (m + 1)" using my(2) by simp
    ultimately have hi: "y \<le> (2::rat) ^ f" by (rule order_trans [rotated])
    have xy: "x = 1 / y" using assms by (simp add: y_def)
    have ypos: "0 < y" using y1 by simp
    have "1 / (2::rat) ^ f \<le> x"
      unfolding xy using hi ypos by (simp add: frac_le)
    moreover have "x < 1 / (2::rat) ^ (f - 1)"
      unfolding xy using lo by (simp add: frac_less2)
    moreover have "2 powi expo x = 1 / (2::rat) ^ f"
      unfolding e by (simp only: power_int_minus power_int_of_nat inverse_eq_divide)
    moreover have e1: "expo x + 1 = - int (f - 1)" using f1 e by simp
    have "2 powi (expo x + 1) = 1 / (2::rat) ^ (f - 1)"
      unfolding e1 by (simp only: power_int_minus power_int_of_nat inverse_eq_divide)
    ultimately show ?thesis by (simp only:)
  qed
  then show "2 powi expo x \<le> x" and "x < 2 powi (expo x + 1)" by simp_all
qed


lemma expo_mono:
  assumes "0 < a" "a \<le> b"
  shows "expo a \<le> expo b"
proof (rule ccontr)
  assume "\<not> expo a \<le> expo b"
  then have "expo b + 1 \<le> expo a" by simp
  then have "(2::rat) powi (expo b + 1) \<le> 2 powi expo a"
    by (rule power_int_increasing) simp
  moreover have "2 powi expo a \<le> a" using assms(1) by (rule expo_bounds)
  moreover have "b < 2 powi (expo b + 1)" using assms by (intro expo_bounds) simp
  ultimately show False using assms(2) by linarith
qed

lemma rhe_range: "\<lfloor>y\<rfloor> \<le> rhe y \<and> rhe y \<le> \<lfloor>y\<rfloor> + 1"
  by (simp add: rhe_def Let_def)

lemma rhe_of_int: "rhe (of_int k) = k"
  by (simp add: rhe_def)

lemma rhe_mono:
  assumes "a \<le> b"
  shows "rhe a \<le> rhe b"
proof (cases "\<lfloor>a\<rfloor> = \<lfloor>b\<rfloor>")
  case True
  then have "a - of_int \<lfloor>a\<rfloor> \<le> b - of_int \<lfloor>b\<rfloor>"
    using assms by simp
  then show ?thesis
    using True by (auto simp add: rhe_def Let_def)
next
  case False
  then have "\<lfloor>a\<rfloor> + 1 \<le> \<lfloor>b\<rfloor>"
    using floor_mono [OF assms] by simp
  then show ?thesis
    using rhe_range [of a] rhe_range [of b] by linarith
qed

lemma rhe_ge: "of_int k \<le> y \<Longrightarrow> k \<le> rhe y"
  using rhe_mono [of "of_int k" y] by (simp add: rhe_of_int)

lemma rhe_le: "y \<le> of_int k \<Longrightarrow> rhe y \<le> k"
  using rhe_mono [of y "of_int k"] by (simp add: rhe_of_int)

lemma fl_unfold: "x \<noteq> 0 \<Longrightarrow> fl x = of_int (rhe (x / 2 powi ulp_exp x)) * 2 powi ulp_exp x"
  by (simp add: fl_def ulp_exp_def Let_def)

lemma fl_zero: "fl 0 = 0"
  by (simp add: fl_def)

lemma fl_upper:
  assumes "0 < x"
  shows "fl x \<le> 2 powi (ulp_exp x + 53)"
proof -
  let ?u = "(2::rat) powi ulp_exp x"
  have u: "0 < ?u" by simp
  have "expo x + 1 \<le> ulp_exp x + 53"
    using assms by (simp add: ulp_exp_def)
  then have "(2::rat) powi (expo x + 1) \<le> 2 powi (ulp_exp x + 53)"
    by (rule power_int_increasing) simp
  then have "x \<le> 2 powi (ulp_exp x + 53)"
    using expo_bounds(2) [OF assms] by linarith
  also have "\<dots> = ?u * 2 powi 53"
    by (rule power_int_add) simp
  finally have "x / ?u \<le> 2 powi 53"
    using u by (simp add: pos_divide_le_eq mult.commute)
  also have "(2::rat) powi 53 = of_int (2 ^ 53)" by simp
  finally have "rhe (x / ?u) \<le> 2 ^ 53" by (rule rhe_le)
  then have "(of_int (rhe (x / ?u)) :: rat) \<le> of_int (2 ^ 53)"
    by (simp only: of_int_le_iff)
  then have "of_int (rhe (x / ?u)) * ?u \<le> of_int (2 ^ 53) * ?u"
    using u by (simp only: mult_le_cancel_right_pos)
  also have "(of_int (2 ^ 53) :: rat) * ?u = ?u * 2 powi 53" by simp
  also have "\<dots> = 2 powi (ulp_exp x + 53)"
    by (rule power_int_add [symmetric]) simp
  finally show ?thesis
    using assms by (simp add: fl_unfold)
qed

lemma fl_lower:
  assumes "0 < x" "- 1022 \<le> expo x"
  shows "2 powi expo x \<le> fl x"
proof -
  let ?u = "(2::rat) powi ulp_exp x"
  have u: "0 < ?u" by simp
  have e: "expo x = ulp_exp x + 52"
    using assms by (simp add: ulp_exp_def)
  have split: "(2::rat) powi expo x = ?u * 2 powi 52"
    unfolding e by (rule power_int_add) simp
  then have "?u * 2 powi 52 \<le> x"
    using expo_bounds(1) [OF assms(1)] by simp
  then have "2 powi 52 \<le> x / ?u"
    using u by (simp add: pos_le_divide_eq mult.commute)
  moreover have "(2::rat) powi 52 = of_int (2 ^ 52)" by simp
  ultimately have "of_int (2 ^ 52) \<le> x / ?u" by simp
  then have "2 ^ 52 \<le> rhe (x / ?u)" by (rule rhe_ge)
  then have "(of_int (2 ^ 52) :: rat) \<le> of_int (rhe (x / ?u))"
    by (simp only: of_int_le_iff)
  then have le: "of_int (2 ^ 52) * ?u \<le> of_int (rhe (x / ?u)) * ?u"
    using u by (simp only: mult_le_cancel_right_pos)
  have fx: "fl x = of_int (rhe (x / ?u)) * ?u"
    using assms(1) by (intro fl_unfold) simp
  have "(2::rat) powi expo x = of_int (2 ^ 52) * ?u"
    using split by simp
  also note le
  also note fx [symmetric]
  finally show ?thesis .
qed

lemma fl_nonneg:
  assumes "0 \<le> x"
  shows "0 \<le> fl x"
proof (cases "x = 0")
  case True
  then show ?thesis by (simp add: fl_zero)
next
  case False
  have "0 \<le> x / 2 powi ulp_exp x" using assms by simp
  then have "0 \<le> rhe (x / 2 powi ulp_exp x)"
    using rhe_ge [of 0] by simp
  then show ?thesis using False by (simp add: fl_unfold)
qed

lemma fl_mono:
  assumes "0 \<le> a" "a \<le> b"
  shows "fl a \<le> fl b"
proof (cases "a = 0")
  case True
  then show ?thesis using assms fl_nonneg [of b] by (simp add: fl_zero)
next
  case False
  then have a: "0 < a" and b: "0 < b" using assms by simp_all
  have ee: "expo a \<le> expo b" using a assms(2) by (rule expo_mono)
  then have uu: "ulp_exp a \<le> ulp_exp b"
    using a b by (simp add: ulp_exp_def)
  show ?thesis
  proof (cases "ulp_exp a = ulp_exp b")
    case True
    let ?u = "(2::rat) powi ulp_exp b"
    have u: "0 < ?u" by simp
    have "a / ?u \<le> b / ?u" using assms(2) u by (simp add: divide_right_mono)
    then have "rhe (a / ?u) \<le> rhe (b / ?u)" by (rule rhe_mono)
    then have "(of_int (rhe (a / ?u)) :: rat) * ?u \<le> of_int (rhe (b / ?u)) * ?u"
      using u by (simp only: mult_le_cancel_right_pos of_int_le_iff)
    then show ?thesis
      using a b True by (simp add: fl_unfold)
  next
    case False
    then have lt: "ulp_exp a + 1 \<le> ulp_exp b" using uu by simp
    then have big: "- 1022 \<le> expo b" and eb: "expo b = ulp_exp b + 52"
      using a b by (simp_all add: ulp_exp_def)
    have "fl a \<le> 2 powi (ulp_exp a + 53)" using a by (rule fl_upper)
    also have "\<dots> \<le> 2 powi expo b"
      unfolding eb using lt by (intro power_int_increasing) simp_all
    also have "\<dots> \<le> fl b" using b big by (rule fl_lower)
    finally show ?thesis .
  qed
qed


lemma fl_1_5: "fl (1 / 5) = 3602879701896397 / 18014398509481984"
  by code_simp

lemma fl_2_5: "fl (2 / 5) = 3602879701896397 / 9007199254740992"
  by code_simp

lemma fl_4_5: "fl (4 / 5) = 3602879701896397 / 4503599627370496"
  by code_simp

section \<open>The content transformer\<close>

text \<open>
  C10. In mode \<open>mask\<close> and in mode \<open>rewrite\<close> the transform returns an outcome that is
  not blocked and carries a transformed text, for every prompt, every DLP result (whatever
  its scores) and every hash function.
\<close>

theorem mask_rewrite_never_blocked:
  "\<not> blocked (redact py_hash prompt dlp ''mask'')
   \<and> redacted_text (redact py_hash prompt dlp ''mask'') \<noteq> None
   \<and> \<not> blocked (redact py_hash prompt dlp ''rewrite'')
   \<and> redacted_text (redact py_hash prompt dlp ''rewrite'') \<noteq> None"
  by (simp add: redact_def mask_def Let_def)

text \<open>
  C1, as the claim states it, fails: with \<open>pii_score = 1.0\<close> and
  \<open>secret_leakage_score = 0.0\<close> the redact-mode outcome is blocked although the two scores
  are not both at least 0.8.
\<close>

theorem redact_blocked_counterexample:
  "blocked (redact (\<lambda>v. 0) '''' dlp_high_pii ''redact'')
   \<and> \<not> (fl (8 / 10) \<le> pii_score dlp_high_pii
          \<and> fl (8 / 10) \<le> secret_leakage_score dlp_high_pii)"
  by (simp add: redact_def basic_redact_def dlp_high_pii_def Let_def fl_4_5)

text \<open>
  C1, amended: the redact-mode outcome is blocked exactly when \<open>pii_score \<ge> 0.8\<close> or
  \<open>secret_leakage_score \<ge> 0.8\<close> (either score alone suffices), and its action is
  \<open>redact\<close> in both cases.
\<close>

theorem redact_blocked_iff_either_high:
  "(blocked (redact py_hash prompt dlp ''redact'')
      \<longleftrightarrow> fl (8 / 10) \<le> pii_score dlp \<or> fl (8 / 10) \<le> secret_leakage_score dlp)
   \<and> RedactionOutcome.action (redact py_hash prompt dlp ''redact'') = ''redact''"
  by (simp add: redact_def basic_redact_def Let_def)

text \<open>
  C7 on the code: the marker table is keyed by \<open>pii\<close>, \<open>secret\<close> and \<open>high_entropy\<close>,
  and the lookup is by the segment's label. The scanner's labels \<open>email\<close> (PII class) and
  \<open>api_key\<close> (secret class) are no keys of the table, so both segments are replaced by
  the same default marker.
\<close>

theorem redact_same_marker_for_email_and_api_key:
  "redacted_text (redact (\<lambda>v. 0) ''bob@example.com token=abcdefghijkl'' dlp_two ''redact'')
     = Some ''[REDACTED] [REDACTED]''
   \<and> dict_get REDACTION_TOKENS ''email'' ''[REDACTED]''
     = dict_get REDACTION_TOKENS ''api_key'' ''[REDACTED]''"
  by (simp add: redact_def basic_redact_def dlp_two_def seg_email_def seg_key_def Let_def
      sorted_by_start_desc_def splice_def dict_get_def REDACTION_TOKENS_def
      slice_to_def slice_from_def)

section \<open>The policy engine\<close>

lemma bump_simps:
  "bump_action ''allow'' ''redact'' = Some ''redact''"
  "bump_action ''redact'' ''redact'' = Some ''redact''"
  "bump_action ''allow'' ''block'' = Some ''block''"
  "bump_action ''redact'' ''block'' = Some ''block''"
  "bump_action ''block'' ''block'' = Some ''block''"
  "bump_action ''allow'' ''rewrite'' = Some ''rewrite''"
  "bump_action ''redact'' ''rewrite'' = Some ''rewrite''"
  "bump_action ''block'' ''rewrite'' = Some ''block''"
  by (simp_all add: bump_action_def severity_def)

lemma jailbreak_nonempty: "is_substr ''ignore previous'' (lower p) \<Longrightarrow> (p = []) = False"
  by (cases p) (simp_all add: lower_def)

text \<open>
  The decision in closed form: \<open>evaluate\<close> never raises, its matched rule ids are those of
  the rule table in order, and its action is the most severe floor among them.
\<close>

lemma evaluate_closed_form:
  "\<exists>d. evaluate self fp dlp = Some d
       \<and> policy_matches d = map fst (triggered_rules self fp dlp)
       \<and> PolicyDecision.action d = most_severe (map snd (triggered_rules self fp dlp))
       \<and> (triggered_rules self fp dlp = []
            \<longrightarrow> reasons d = [''No policies triggered''] \<and> parameters d = Map.empty)"
proof -
  let ?p = "fl (1 / 5) \<le> pii_score dlp"
  let ?s = "fl (1 / 5) \<le> secret_leakage_score dlp"
  let ?b = "fl (2 / 5) \<le> secret_leakage_score dlp"
  consider (a) "fp = None" "raw_prompt dlp = None"
    | (b) p where "fp = None" "raw_prompt dlp = Some p"
    | (c) f where "fp = Some f" "raw_prompt dlp = None"
    | (d) f p where "fp = Some f" "raw_prompt dlp = Some p"
    by (cases fp; cases "raw_prompt dlp") auto
  then show ?thesis
  proof cases
    case a
    then show ?thesis
      by (cases ?p; cases ?s; cases ?b)
        (simp_all add: evaluate_def triggered_rules_def bump_simps most_severe_def)
  next
    case b
    then show ?thesis
      by (cases ?p; cases ?s; cases ?b; cases "is_substr ''ignore previous'' (lower p)")
        (simp_all add: evaluate_def triggered_rules_def bump_simps most_severe_def
          jailbreak_nonempty)
  next
    case c
    then show ?thesis
      by (cases ?p; cases ?s; cases ?b; cases "enforce_external_block self";
          cases "service_name f \<in> whitelist self")
        (simp_all add: evaluate_def triggered_rules_def bump_simps most_severe_def)
  next
    case d
    then show ?thesis
      by (cases ?p; cases ?s; cases ?b; cases "enforce_external_block self";
          cases "service_name f \<in> whitelist self";
          cases "is_substr ''ignore previous'' (lower p)")
        (simp_all add: evaluate_def triggered_rules_def bump_simps most_severe_def
          jailbreak_nonempty)
  qed
qed

lemma triggered_floors:
  "set (map snd (triggered_rules self fp dlp)) \<subseteq> {''redact'', ''block'', ''rewrite''}"
  by (auto simp add: triggered_rules_def split: option.splits if_splits)

lemma most_severe_is_max:
  assumes "set floors \<subseteq> {''redact'', ''block'', ''rewrite''}"
  shows "most_severe floors \<in> set (''allow'' # floors)"
    and "\<forall>f \<in> set floors. rank f \<le> rank (most_severe floors)"
  using assms by (auto simp add: most_severe_def rank_def)

lemma block_secrets_floor:
  "''RULE_BLOCK_SECRETS'' \<in> set (map fst (triggered_rules self fp dlp))
   \<Longrightarrow> ''block'' \<in> set (map snd (triggered_rules self fp dlp))"
  by (auto simp add: triggered_rules_def split: option.splits if_splits)

lemma triggered_jailbreak:
  "triggered_rules engine0 None dlp_jailbreak =
     [(''RULE_REDACT_SECRETS'', ''redact''), (''RULE_BLOCK_SECRETS'', ''block''),
      (''RULE_SAFE_MODE_REWRITE'', ''rewrite'')]"
  by code_simp

lemma triggered_benign: "triggered_rules engine0 None dlp_benign = []"
  by code_simp

text \<open>
  C3. For every engine, fingerprint result and DLP result, \<open>evaluate\<close> returns a decision
  whose matched rules are the triggered rules of the table and whose action is the maximum
  of their floors under \<open>allow < redact < mask < rewrite < block\<close> (\<open>allow\<close> when none
  triggers): the action is \<open>allow\<close> or one of the floors, it is at least every triggered
  floor, and it is \<open>block\<close> whenever RULE_BLOCK_SECRETS and RULE_SAFE_MODE_REWRITE both
  trigger.
\<close>

theorem evaluate_action_is_max_floor:
  "\<exists>d. evaluate self fp dlp = Some d
       \<and> policy_matches d = map fst (triggered_rules self fp dlp)
       \<and> PolicyDecision.action d \<in> set (''allow'' # map snd (triggered_rules self fp dlp))
       \<and> (\<forall>f \<in> set (map snd (triggered_rules self fp dlp)).
             rank f \<le> rank (PolicyDecision.action d))
       \<and> (''RULE_BLOCK_SECRETS'' \<in> set (policy_matches d)
            \<and> ''RULE_SAFE_MODE_REWRITE'' \<in> set (policy_matches d)
          \<longrightarrow> PolicyDecision.action d = ''block'')"
proof -
  let ?floors = "map snd (triggered_rules self fp dlp)"
  obtain d where d: "evaluate self fp dlp = Some d"
      "policy_matches d = map fst (triggered_rules self fp dlp)"
      "PolicyDecision.action d = most_severe ?floors"
    using evaluate_closed_form [of self fp dlp] by blast
  have "PolicyDecision.action d \<in> set (''allow'' # ?floors)"
    using most_severe_is_max(1) [OF triggered_floors] d(3) by metis
  moreover have "\<forall>f \<in> set ?floors. rank f \<le> rank (PolicyDecision.action d)"
    using most_severe_is_max(2) [OF triggered_floors] d(3) by metis
  moreover have "PolicyDecision.action d = ''block''"
    if "''RULE_BLOCK_SECRETS'' \<in> set (policy_matches d)"
    using block_secrets_floor [of self fp dlp] that d(2,3) by (simp add: most_severe_def)
  ultimately show ?thesis using d(1,2) by blast
qed

theorem evaluate_action_is_max_floor_witness:
  "\<exists>d. evaluate engine0 None dlp_jailbreak = Some d
       \<and> ''RULE_BLOCK_SECRETS'' \<in> set (policy_matches d)
       \<and> ''RULE_SAFE_MODE_REWRITE'' \<in> set (policy_matches d)
       \<and> rank ''rewrite'' \<le> rank (PolicyDecision.action d)
       \<and> PolicyDecision.action d = ''block''"
  using evaluate_action_is_max_floor [of engine0 None dlp_jailbreak]
  by (auto simp add: triggered_jailbreak)

text \<open>
  C9, as the claim states it, fails on the reason: when no rule triggers the decision's
  only reason is the string \<open>No policies triggered\<close>, not \<open>no policy triggered\<close>.
\<close>

theorem evaluate_reason_counterexample:
  "triggered_rules engine0 None dlp_benign = []
   \<and> map_option reasons (evaluate engine0 None dlp_benign) \<noteq> Some [''no policy triggered'']"
  using evaluate_closed_form [of engine0 None dlp_benign] triggered_benign by auto

text \<open>
  C9, amended: when no rule of the table triggers, \<open>evaluate\<close> returns the action
  \<open>allow\<close>, the single reason \<open>No policies triggered\<close>, no matched rule id and no extra
  parameter.
\<close>

theorem evaluate_no_rule_allows:
  "triggered_rules self fp dlp = [] \<Longrightarrow>
   evaluate self fp dlp =
     Some \<lparr>PolicyDecision.action = ''allow'', reasons = [''No policies triggered''],
           policy_matches = [], parameters = Map.empty\<rparr>"
  using evaluate_closed_form [of self fp dlp] by (auto simp add: most_severe_def)

theorem evaluate_no_rule_allows_witness:
  "triggered_rules engine0 None dlp_benign = []
   \<and> evaluate engine0 None dlp_benign =
     Some \<lparr>PolicyDecision.action = ''allow'', reasons = [''No policies triggered''],
           policy_matches = [], parameters = Map.empty\<rparr>"
  using evaluate_no_rule_allows [of engine0 None dlp_benign] triggered_benign by simp

section \<open>The fingerprinter\<close>

lemma rx_ends_seq_Nil: "rx_ends (rx_seq []) s i = [i]"
  by (simp add: rx_seq_def)

lemma rx_ends_seq_Cons:
  "rx_ends (rx_seq (r # rs)) s i = concat (map (rx_ends (rx_seq rs) s) (rx_ends r s i))"
  by (simp add: rx_seq_def)

lemma ci_at_Cons:
  "ci_at (c # base) s i \<longleftrightarrow> i < length s \<and> lower_char (s ! i) = lower_char c \<and> ci_at base s (Suc i)"
proof (cases "i < length s")
  case True
  then have "drop i s = s ! i # drop (Suc i) s"
    by (simp add: Cons_nth_drop_Suc)
  then show ?thesis using True
    by (auto simp add: ci_at_def lower_def)
next
  case False
  then show ?thesis by (simp add: ci_at_def)
qed

lemma rx_ends_chr_ci:
  "rx_ends (rx_chr_ci c) s i =
     (if i < length s \<and> lower_char (s ! i) = lower_char c then [Suc i] else [])"
  by (simp add: rx_chr_ci_def)

lemma rx_ends_literals_eol:
  "rx_ends (rx_seq (map rx_chr_ci base @ [Eol])) s i =
     (if ci_at base s i \<and> at_eol s (i + length base) then [i + length base] else [])"
proof (induction base arbitrary: i)
  case Nil
  show ?case
    by (auto simp add: rx_ends_seq_Cons rx_ends_seq_Nil ci_at_def at_eol_def lower_def)
next
  case (Cons c base)
  show ?case
  proof (cases "i < length s \<and> lower_char (s ! i) = lower_char c")
    case True
    then have "rx_ends (rx_seq (map rx_chr_ci (c # base) @ [Eol])) s i =
               rx_ends (rx_seq (map rx_chr_ci base @ [Eol])) s (Suc i)"
      by (simp add: rx_ends_seq_Cons rx_ends_chr_ci)
    then show ?thesis using True
      by (simp add: Cons.IH ci_at_Cons)
  next
    case False
    then have "rx_ends (rx_chr_ci c) s i = []"
      by (cases "i < length s") (simp_all add: rx_ends_chr_ci)
    then have "rx_ends (rx_seq (map rx_chr_ci (c # base) @ [Eol])) s i = []"
      by (simp add: rx_ends_seq_Cons)
    moreover have "\<not> ci_at (c # base) s i"
      using False by (simp only: ci_at_Cons) blast
    ultimately show ?thesis
      by simp
  qed
qed

lemma concat_map_if_nonempty:
  "concat (map (\<lambda>j. if P j then [f j] else []) xs) \<noteq> [] \<longleftrightarrow> (\<exists>j \<in> set xs. P j)"
  by (induction xs) auto

lemma rx_ends_literals:
  "i \<le> length s \<Longrightarrow>
   rx_ends (rx_seq (map rx_chr_ci lits @ rest)) s i =
     (if ci_at lits s i then rx_ends (rx_seq rest) s (i + length lits) else [])"
proof (induction lits arbitrary: i)
  case Nil
  then show ?case
    by (simp add: ci_at_def lower_def)
next
  case (Cons c lits)
  show ?case
  proof (cases "i < length s \<and> lower_char (s ! i) = lower_char c")
    case True
    then have "rx_ends (rx_seq (map rx_chr_ci (c # lits) @ rest)) s i =
               rx_ends (rx_seq (map rx_chr_ci lits @ rest)) s (Suc i)"
      by (simp add: rx_ends_seq_Cons rx_ends_chr_ci)
    moreover have "Suc i \<le> length s"
      using True by simp
    ultimately show ?thesis using True
      by (simp add: Cons.IH ci_at_Cons)
  next
    case False
    then have "rx_ends (rx_chr_ci c) s i = []"
      by (cases "i < length s") (simp_all add: rx_ends_chr_ci)
    then have "rx_ends (rx_seq (map rx_chr_ci (c # lits) @ rest)) s i = []"
      by (simp add: rx_ends_seq_Cons)
    moreover have "\<not> ci_at (c # lits) s i"
      using False by (simp only: ci_at_Cons) blast
    ultimately show ?thesis
      by simp
  qed
qed

lemma literal_map:
  "CHR ''*'' \<notin> set lits \<Longrightarrow>
   map (\<lambda>c. if c = CHR ''*'' then rx_star any_char else rx_chr_ci c) lits = map rx_chr_ci lits"
  by (induction lits) auto

lemma ex_in_range:
  "(\<exists>j \<in> set (rev [n ..< Suc (n + r)]). P j) \<longleftrightarrow> (\<exists>k \<le> r. P (n + k))"
proof
  assume "\<exists>j \<in> set (rev [n ..< Suc (n + r)]). P j"
  then obtain j where j: "n \<le> j" "j \<le> n + r" "P j"
    by (auto simp del: upt_Suc)
  then have "j - n \<le> r" "P (n + (j - n))"
    by simp_all
  then show "\<exists>k \<le> r. P (n + k)"
    by blast
next
  assume "\<exists>k \<le> r. P (n + k)"
  then obtain k where "k \<le> r" "P (n + k)"
    by blast
  then have "n + k \<in> set (rev [n ..< Suc (n + r)])" "P (n + k)"
    by (simp_all del: upt_Suc)
  then show "\<exists>j \<in> set (rev [n ..< Suc (n + r)]). P j"
    by blast
qed

lemma wildcard_ends:
  assumes "CHR ''*'' \<notin> set pre" and "CHR ''*'' \<notin> set post"
  shows "rx_match (wildcard_to_regex (pre @ CHR ''*'' # post)) h \<longleftrightarrow>
         ci_at pre h 0
         \<and> (\<exists>k \<le> run_length any_char h (length pre).
               ci_at post h (length pre + k) \<and> at_eol h (length pre + k + length post))"
proof -
  let ?run = "run_length any_char h (length pre)"
  let ?ok = "\<lambda>j. ci_at post h j \<and> at_eol h (j + length post)"
  let ?tail = "\<lambda>j. if ?ok j then [j + length post] else []"
  have tail: "rx_ends (rx_seq (map rx_chr_ci post @ [Eol])) h = ?tail"
    by (rule ext) (simp add: rx_ends_literals_eol)
  have pat: "wildcard_to_regex (pre @ CHR ''*'' # post) =
        rx_seq (Bol # map rx_chr_ci pre @ rx_star any_char # map rx_chr_ci post @ [Eol])"
    unfolding wildcard_to_regex_def using assms by (simp add: literal_map)
  have bol: "rx_ends (rx_seq (Bol # rs)) h 0 = rx_ends (rx_seq rs) h 0" for rs
    by (simp add: rx_ends_seq_Cons)
  have lits: "rx_ends (rx_seq (map rx_chr_ci pre @ rs)) h 0 =
              (if ci_at pre h 0 then rx_ends (rx_seq rs) h (length pre) else [])" for rs
    using rx_ends_literals [of 0 h pre rs] by simp
  have star: "rx_ends (rx_star any_char) h (length pre) =
              rev [length pre ..< Suc (length pre + ?run)]"
    by (simp add: rx_star_def del: upt_Suc)
  have ends: "rx_ends (wildcard_to_regex (pre @ CHR ''*'' # post)) h 0 =
        (if ci_at pre h 0
         then concat (map ?tail (rev [length pre ..< Suc (length pre + ?run)]))
         else [])"
    by (simp only: pat bol lits rx_ends_seq_Cons [of "rx_star any_char"] star tail)
  show ?thesis
  proof (cases "ci_at pre h 0")
    case True
    then have "rx_match (wildcard_to_regex (pre @ CHR ''*'' # post)) h \<longleftrightarrow>
               concat (map ?tail (rev [length pre ..< Suc (length pre + ?run)])) \<noteq> []"
      unfolding rx_match_def by (simp only: ends if_True)
    also have "\<dots> \<longleftrightarrow> (\<exists>j \<in> set (rev [length pre ..< Suc (length pre + ?run)]). ?ok j)"
      by (rule concat_map_if_nonempty)
    also have "\<dots> \<longleftrightarrow> (\<exists>k \<le> ?run. ?ok (length pre + k))"
      by (rule ex_in_range)
    finally show ?thesis
      using True by simp
  next
    case False
    then show ?thesis
      unfolding rx_match_def by (simp only: ends if_False) simp
  qed
qed

lemma take_within_run:
  assumes "j \<le> length (takeWhile P xs)"
  shows "\<forall>x \<in> set (take j xs). P x"
proof -
  have "take j xs = take j (takeWhile P xs @ dropWhile P xs)"
    by simp
  also have "\<dots> = take j (takeWhile P xs)"
    using assms by (simp del: takeWhile_dropWhile_id)
  finally have "set (take j xs) \<subseteq> set (takeWhile P xs)"
    by (simp add: set_take_subset)
  then show ?thesis
    by (auto dest: set_takeWhileD)
qed

lemma catalog_wildcards:
  "filter (\<lambda>p. CHR ''*'' \<in> set p) (concat (map (\<lambda>(n, d, rest). d) catalog)) =
     [''*.openai.azure.com'', ''bedrock-runtime.*.amazonaws.com'']"
  by code_simp

text \<open>
  C6, as the claim states it, fails: the pattern \<open>*.openai.azure.com\<close> of the catalog
  matches the two-level expansion \<open>a.b.openai.azure.com\<close>.
\<close>

theorem wildcard_multi_level_counterexample:
  "rx_match (wildcard_to_regex ''*.openai.azure.com'') ''a.b.openai.azure.com''"
  by code_simp

text \<open>
  C6, amended. The catalog has two wildcard patterns, \<open>*.openai.azure.com\<close> and
  \<open>bedrock-runtime.*.amazonaws.com\<close>: each is a literal part, one star and a literal part
  (the first part is empty in the former). For hosts whose characters are code points below
  256, which is what a \<open>string\<close> holds here, such a pattern matches exactly the hosts that
  consist of the first part up to case, then any text without a line feed in place of the
  star (empty, one label or several labels), then the second part up to case, optionally
  followed by one final line feed. Above code point 255 \<open>re.IGNORECASE\<close> identifies more
  characters than \<open>lower\<close> does (the dotless i with \<open>i\<close>, the long s with \<open>s\<close>); such hosts
  are outside this statement.
\<close>

theorem wildcard_matches:
  assumes "CHR ''*'' \<notin> set pre" and "CHR ''*'' \<notin> set post"
  shows "rx_match (wildcard_to_regex (pre @ CHR ''*'' # post)) h \<longleftrightarrow>
         (\<exists>a p t. (h = a @ p @ t \<or> h = a @ p @ t @ [newline])
                  \<and> lower a = lower pre \<and> newline \<notin> set p \<and> lower t = lower post)"
proof
  assume "rx_match (wildcard_to_regex (pre @ CHR ''*'' # post)) h"
  then obtain k where pre: "ci_at pre h 0" and k: "k \<le> run_length any_char h (length pre)"
      and post: "ci_at post h (length pre + k)"
      and eol: "at_eol h (length pre + k + length post)"
    using wildcard_ends [OF assms] by blast
  define a where "a = take (length pre) h"
  define p where "p = take k (drop (length pre) h)"
  define t where "t = take (length post) (drop (length pre + k) h)"
  define e where "e = drop (length pre + k + length post) h"
  have lowa: "lower a = lower pre"
    using pre by (simp add: ci_at_def a_def)
  have lowt: "lower t = lower post"
    using post by (simp add: ci_at_def t_def)
  have "\<forall>x \<in> set p. any_char x"
    using k take_within_run [of k any_char "drop (length pre) h"]
    by (simp add: run_length_def p_def)
  then have nl: "newline \<notin> set p"
    by (auto simp add: any_char_def)
  have "h = a @ drop (length pre) h"
    by (simp add: a_def)
  also have "drop (length pre) h = p @ drop k (drop (length pre) h)"
    by (simp only: p_def append_take_drop_id)
  also have "drop k (drop (length pre) h) = drop (length pre + k) h"
    by (simp add: add.commute)
  also have "drop (length pre + k) h = t @ drop (length post) (drop (length pre + k) h)"
    by (simp only: t_def append_take_drop_id)
  also have "drop (length post) (drop (length pre + k) h) = e"
    by (simp add: e_def add.commute)
  finally have split: "h = a @ p @ t @ e" .
  from eol consider "length pre + k + length post = length h"
    | "Suc (length pre + k + length post) = length h"
      "h ! (length pre + k + length post) = newline"
    by (auto simp add: at_eol_def)
  then have "e = [] \<or> e = [newline]"
  proof cases
    case 1
    then show ?thesis by (simp add: e_def)
  next
    case 2
    then have "e = [newline]"
      unfolding e_def by (metis Cons_nth_drop_Suc drop_all lessI order_refl)
    then show ?thesis by simp
  qed
  then have "h = a @ p @ t \<or> h = a @ p @ t @ [newline]"
    using split by auto
  then show "\<exists>a p t. (h = a @ p @ t \<or> h = a @ p @ t @ [newline])
                  \<and> lower a = lower pre \<and> newline \<notin> set p \<and> lower t = lower post"
    using lowa nl lowt by blast
next
  assume "\<exists>a p t. (h = a @ p @ t \<or> h = a @ p @ t @ [newline])
                  \<and> lower a = lower pre \<and> newline \<notin> set p \<and> lower t = lower post"
  then obtain a p t where apt: "h = a @ p @ t \<or> h = a @ p @ t @ [newline]"
      and lowa: "lower a = lower pre" and nl: "newline \<notin> set p"
      and lowt: "lower t = lower post"
    by blast
  define e where "e = drop (length a + length p + length t) h"
  have h: "h = a @ p @ t @ e" "e = [] \<or> e = [newline]"
    using apt by (auto simp add: e_def)
  have la: "length a = length pre"
    using lowa by (metis length_map lower_def)
  have lt: "length t = length post"
    using lowt by (metis length_map lower_def)
  have "ci_at pre h 0"
    using h(1) la lowa by (simp add: ci_at_def)
  moreover have "length p \<le> run_length any_char h (length pre)"
  proof -
    have "\<And>x. x \<in> set p \<Longrightarrow> any_char x"
      using nl by (auto simp add: any_char_def)
    then have "takeWhile any_char (p @ (t @ e)) = p @ takeWhile any_char (t @ e)"
      by (rule takeWhile_append2)
    moreover have "drop (length pre) h = p @ t @ e"
      using h(1) la by simp
    ultimately show ?thesis
      by (simp add: run_length_def)
  qed
  moreover have "ci_at post h (length pre + length p)"
    using h(1) la lt lowt by (simp add: ci_at_def)
  moreover have "at_eol h (length pre + length p + length post)"
    using h la lt by (auto simp add: at_eol_def nth_append)
  ultimately show "rx_match (wildcard_to_regex (pre @ CHR ''*'' # post)) h"
    using wildcard_ends [OF assms] by blast
qed

text \<open>
  The witness, at both wildcard patterns of the catalog, each with a host of two labels in
  place of the star.
\<close>

theorem wildcard_matches_witness:
  "CHR ''*'' \<notin> set ''bedrock-runtime.'' \<and> CHR ''*'' \<notin> set ''.amazonaws.com''
   \<and> CHR ''*'' \<notin> set ''.openai.azure.com''
   \<and> rx_match (wildcard_to_regex ''bedrock-runtime.*.amazonaws.com'')
        ''Bedrock-Runtime.us.east.amazonaws.com''
   \<and> rx_match (wildcard_to_regex ''*.openai.azure.com'') ''a.b.OpenAI.azure.com''"
proof -
  have s: "CHR ''*'' \<notin> set ''bedrock-runtime.''" "CHR ''*'' \<notin> set ''.amazonaws.com''"
      "CHR ''*'' \<notin> set []" "CHR ''*'' \<notin> set ''.openai.azure.com''"
    by simp_all
  have l: "lower ''Bedrock-Runtime.'' = lower ''bedrock-runtime.''"
      "lower ''.OpenAI.azure.com'' = lower ''.openai.azure.com''"
    by code_simp+
  have n: "newline \<notin> set ''us.east''" "newline \<notin> set ''a.b''"
    by (simp_all add: newline_def)
  have "''Bedrock-Runtime.us.east.amazonaws.com''
          = ''Bedrock-Runtime.'' @ ''us.east'' @ ''.amazonaws.com''"
    by simp
  then have "rx_match (wildcard_to_regex (''bedrock-runtime.'' @ CHR ''*'' # ''.amazonaws.com''))
                 ''Bedrock-Runtime.us.east.amazonaws.com''"
    using wildcard_matches [OF s(1,2), of "''Bedrock-Runtime.us.east.amazonaws.com''"] l(1) n(1)
    by blast
  then have 1: "rx_match (wildcard_to_regex ''bedrock-runtime.*.amazonaws.com'')
                 ''Bedrock-Runtime.us.east.amazonaws.com''"
    by simp
  have "''a.b.OpenAI.azure.com'' = [] @ ''a.b'' @ ''.OpenAI.azure.com''"
    by simp
  moreover have "lower [] = lower []"
    by simp
  ultimately have "rx_match (wildcard_to_regex ([] @ CHR ''*'' # ''.openai.azure.com''))
                 ''a.b.OpenAI.azure.com''"
    using wildcard_matches [OF s(3,4), of "''a.b.OpenAI.azure.com''"] l(2) n(2)
    by blast
  then have 2: "rx_match (wildcard_to_regex ''*.openai.azure.com'') ''a.b.OpenAI.azure.com''"
    by simp
  from s(1,2,4) 1 2 show ?thesis by simp
qed

text \<open>
  C4 on the code: the scores are floats. For a rule whose path and header match and whose
  host does not, the score is the float sum \<open>0.0 + 0.3 + 0.15\<close>, which is
  \<open>0.44999999999999996\<close> and lies below the float \<open>0.45\<close>, although the exact sum
  \<open>3/10 + 15/100\<close> is \<open>45/100\<close>. The rule does not qualify and the request is not
  classified.
\<close>

theorem fingerprint_path_header_below_threshold:
  "fingerprint build_rules ctx_path_header = None
   \<and> map (\<lambda>r. (rule.service_name r,
                 score_rule ctx_path_header (lower (host ctx_path_header)) r))
         (filter (\<lambda>r. rule.service_name r = ''Replicate'') build_rules)
       = [(''Replicate'', 2026619832316723 / 4503599627370496, [''path'', ''header''])]
   \<and> fl (45 / 100) = 8106479329266893 / 18014398509481984
   \<and> (45 / 100 :: rat) \<le> 3 / 10 + 15 / 100"
  by code_simp

section \<open>The scanner: overlapping segments\<close>

lemma finditer_from_starts:
  "(a, b) \<in> set (finditer_from r s pos) \<Longrightarrow> pos \<le> a"
proof (induction r s pos rule: finditer_from.induct)
  case (1 r s pos)
  show ?case
  proof (cases "rx_search_from r s pos")
    case None
    with "1.prems" show ?thesis by (simp add: finditer_from.simps [of r s pos])
  next
    case (Some m)
    obtain i j where m: "m = (i, j)" by (cases m)
    have b: "pos \<le> i" using rx_search_from_bounds Some m by blast
    from "1.prems" Some m
    have "(a, b) = (i, j) \<or> (a, b) \<in> set (finditer_from r s (max j (Suc i)))"
      by (simp add: finditer_from.simps [of r s pos])
    then show ?thesis
    proof
      assume "(a, b) = (i, j)" then show ?thesis using b by simp
    next
      assume "(a, b) \<in> set (finditer_from r s (max j (Suc i)))"
      then have "max j (Suc i) \<le> a" using "1.IH" Some m by simp
      then show ?thesis using b by simp
    qed
  qed
qed

lemma finditer_from_sorted:
  "sorted_wrt (\<lambda>m n. snd m \<le> fst n) (finditer_from r s pos)"
proof (induction r s pos rule: finditer_from.induct)
  case (1 r s pos)
  show ?case
  proof (cases "rx_search_from r s pos")
    case None
    then show ?thesis by (simp add: finditer_from.simps [of r s pos])
  next
    case (Some m)
    obtain i j where m: "m = (i, j)" by (cases m)
    have "j \<le> fst n" if "n \<in> set (finditer_from r s (max j (Suc i)))" for n
    proof -
      obtain a b where n: "n = (a, b)" by (cases n)
      then have "max j (Suc i) \<le> a"
        using that finditer_from_starts [of a b r s "max j (Suc i)"] by simp
      then show ?thesis using n by simp
    qed
    then have "\<forall>n \<in> set (finditer_from r s (max j (Suc i))). j \<le> fst n"
      by blast
    moreover have "sorted_wrt (\<lambda>m n. snd m \<le> fst n) (finditer_from r s (max j (Suc i)))"
      using "1.IH" Some m by simp
    ultimately show ?thesis using Some m
      by (simp add: finditer_from.simps [of r s pos])
  qed
qed

lemma matches_no_overlap: "no_overlap (map (segment_of l text) (finditer r text))"
  unfolding no_overlap_def finditer_def sorted_wrt_map
  by (rule sorted_wrt_mono_rel [OF _ finditer_from_sorted])
     (simp add: spans_disjoint_def segment_of_def)

lemma filter_label_hits:
  assumes "distinct (map fst ps)"
  shows "filter (\<lambda>h. label h = l)
           (concat (map (\<lambda>(lbl, regex). map (segment_of lbl text) (finditer regex text)) ps))
         = (case map_of ps l of None \<Rightarrow> []
            | Some r \<Rightarrow> map (segment_of l text) (finditer r text))"
  using assms
proof (induction ps)
  case Nil
  then show ?case by simp
next
  case (Cons p ps)
  obtain lbl regex where p: "p = (lbl, regex)" by (cases p)
  have same: "filter (\<lambda>h. label h = l) (map (segment_of lbl text) xs)
              = (if lbl = l then map (segment_of lbl text) xs else [])" for xs
    by (induction xs) (auto simp add: segment_of_def)
  show ?case
  proof (cases "lbl = l")
    case True
    then have "map_of ps l = None"
      using Cons.prems p by (simp add: map_of_eq_None_iff)
    then show ?thesis using Cons p True same by simp
  next
    case False
    then show ?thesis using Cons p same by simp
  qed
qed


lemma catalog_labels:
  "set (map fst (PII_REGEXES @ SECRET_REGEXES))
     = {''email'', ''phone'', ''medicare'', ''tfn'', ''api_key'', ''jwt''}"
  by (auto simp add: PII_REGEXES_def SECRET_REGEXES_def)

lemma catalog_labels_distinct: "distinct (map fst (PII_REGEXES @ SECRET_REGEXES))"
  by (simp add: PII_REGEXES_def SECRET_REGEXES_def)

lemma scan_regexes_concat:
  "scan_regexes text =
     concat (map (\<lambda>(lbl, regex). map (segment_of lbl text) (finditer regex text))
               (PII_REGEXES @ SECRET_REGEXES))"
  by (simp add: scan_regexes_def)

lemma hits_no_overlap:
  assumes "distinct (map fst ps)"
  shows "no_overlap (filter (\<lambda>h. label h = l)
           (concat (map (\<lambda>(lbl, regex). map (segment_of lbl text) (finditer regex text)) ps)))"
proof (cases "map_of ps l")
  case None
  then show ?thesis
    by (simp add: filter_label_hits [OF assms] no_overlap_def)
next
  case (Some r)
  then show ?thesis
    by (simp add: filter_label_hits [OF assms] matches_no_overlap)
qed

lemma filter_scan_regexes:
  "no_overlap (filter (\<lambda>h. label h = l) (scan_regexes text))"
  unfolding scan_regexes_concat by (rule hits_no_overlap [OF catalog_labels_distinct])

lemma filter_scan_entropy:
  "l \<noteq> ''high_entropy'' \<Longrightarrow> filter (\<lambda>h. label h = l) (scan_entropy rt text th) = []"
  by (auto simp add: scan_entropy_def filter_empty_conv)

lemma filter_scan_spacy:
  "l \<notin> ENTITY_LABELS \<Longrightarrow> filter (\<lambda>h. label h = l) (scan_spacy self text) = []"
  by (auto simp add: scan_spacy_def filter_empty_conv split: option.splits)

lemma scan_regexes_digits12:
  "scan_regexes digits12 =
     [\<lparr>label = ''phone'', value_text = ''123456789012'', start = 0, end_pos = 12\<rparr>,
      \<lparr>label = ''medicare'', value_text = ''123456789012'', start = 0, end_pos = 12\<rparr>]"
  by code_simp

lemma tokens_digits12: "findall (Rep key_char 8 None) digits12 = [''123456789012'']"
  by code_simp

lemma scan_entropy_digits12: "scan_entropy rt digits12 th = []"
  by (simp add: scan_entropy_def tokens_digits12)

lemma segments_digits12:
  "sensitive_segments (analyze rt dlp_engine0 digits12) =
     [\<lparr>label = ''phone'', value_text = ''123456789012'', start = 0, end_pos = 12\<rparr>,
      \<lparr>label = ''medicare'', value_text = ''123456789012'', start = 0, end_pos = 12\<rparr>]"
  by (simp add: analyze_def Let_def scan_regexes_digits12 scan_entropy_digits12
      scan_spacy_def dlp_engine0_def)

text \<open>
  C8, as the claim states it, fails: on the text \<open>123456789012\<close> the phone pattern and
  the medicare pattern both match the whole text, and the scanner returns both segments with
  the same span.
\<close>

theorem scanner_overlap_counterexample:
  "\<not> no_overlap (sensitive_segments (analyze runtime0 dlp_engine0 digits12))"
  by (simp add: segments_digits12 no_overlap_def spans_disjoint_def)

text \<open>
  C8, amended: for every text, every engine and every runtime, the segments that carry one and the same
  label of the two pattern catalogs do not overlap each other (segments of different labels
  may overlap or coincide, nothing removes them).
\<close>

theorem catalog_matches_never_overlap:
  "\<forall>l \<in> set (map fst (PII_REGEXES @ SECRET_REGEXES)).
     no_overlap (filter (\<lambda>h. label h = l) (sensitive_segments (analyze rt self text)))"
proof
  fix l
  assume "l \<in> set (map fst (PII_REGEXES @ SECRET_REGEXES))"
  then have l: "l \<in> {''email'', ''phone'', ''medicare'', ''tfn'', ''api_key'', ''jwt''}"
    by (simp only: catalog_labels)
  then have "l \<noteq> ''high_entropy''" and "l \<notin> ENTITY_LABELS"
    by (auto simp add: ENTITY_LABELS_def)
  then have "filter (\<lambda>h. label h = l) (sensitive_segments (analyze rt self text))
             = filter (\<lambda>h. label h = l) (scan_regexes text)"
    by (simp add: analyze_def Let_def filter_scan_entropy filter_scan_spacy)
  then show "no_overlap (filter (\<lambda>h. label h = l) (sensitive_segments (analyze rt self text)))"
    by (simp add: filter_scan_regexes)
qed

lemma scan_regexes_digits_twice:
  "scan_regexes digits_twice =
     [\<lparr>label = ''phone'', value_text = ''123456789012'', start = 0, end_pos = 12\<rparr>,
      \<lparr>label = ''phone'', value_text = ''123456789012'', start = 13, end_pos = 25\<rparr>,
      \<lparr>label = ''medicare'', value_text = ''123456789012'', start = 0, end_pos = 12\<rparr>,
      \<lparr>label = ''medicare'', value_text = ''123456789012'', start = 13, end_pos = 25\<rparr>]"
  by code_simp

lemma tokens_digits_twice:
  "findall (Rep key_char 8 None) digits_twice = [''123456789012'', ''123456789012'']"
  by code_simp

lemma segments_digits_twice:
  "sensitive_segments (analyze rt dlp_engine0 digits_twice) =
     [\<lparr>label = ''phone'', value_text = ''123456789012'', start = 0, end_pos = 12\<rparr>,
      \<lparr>label = ''phone'', value_text = ''123456789012'', start = 13, end_pos = 25\<rparr>,
      \<lparr>label = ''medicare'', value_text = ''123456789012'', start = 0, end_pos = 12\<rparr>,
      \<lparr>label = ''medicare'', value_text = ''123456789012'', start = 13, end_pos = 25\<rparr>]"
  by (simp add: analyze_def Let_def scan_regexes_digits_twice scan_entropy_def
      tokens_digits_twice scan_spacy_def dlp_engine0_def)

text \<open>
  The witness: on \<open>123456789012 123456789012\<close> the scanner returns two phone segments,
  \<open>(0, 12)\<close> and \<open>(13, 25)\<close>, and they do not overlap.
\<close>

theorem catalog_matches_never_overlap_witness:
  "''phone'' \<in> set (map fst (PII_REGEXES @ SECRET_REGEXES))
   \<and> filter (\<lambda>h. label h = ''phone'')
        (sensitive_segments (analyze runtime0 dlp_engine0 digits_twice))
     = [\<lparr>label = ''phone'', value_text = ''123456789012'', start = 0, end_pos = 12\<rparr>,
        \<lparr>label = ''phone'', value_text = ''123456789012'', start = 13, end_pos = 25\<rparr>]
   \<and> no_overlap (filter (\<lambda>h. label h = ''phone'')
                   (sensitive_segments (analyze runtime0 dlp_engine0 digits_twice)))"
proof -
  have m: "''phone'' \<in> set (map fst (PII_REGEXES @ SECRET_REGEXES))"
    by (simp only: catalog_labels) simp
  have f: "filter (\<lambda>h. label h = ''phone'')
             (sensitive_segments (analyze runtime0 dlp_engine0 digits_twice))
           = [\<lparr>label = ''phone'', value_text = ''123456789012'', start = 0, end_pos = 12\<rparr>,
              \<lparr>label = ''phone'', value_text = ''123456789012'', start = 13, end_pos = 25\<rparr>]"
    by (simp add: segments_digits_twice)
  show ?thesis
    using catalog_matches_never_overlap [of runtime0 dlp_engine0 digits_twice] m f by blast
qed

end
